theory Spec2Isabelle
  imports Main
begin

section \<open>Data model of csv.go\<close>

text \<open>
  Go's \<^verbatim>\<open>error\<close> interface. \<^verbatim>\<open>errors.New(msg)\<close> is \<open>New msg\<close>; an error value of any other
  dynamic type, as a generator of the registry may return it, is \<open>Foreign e\<close>.
\<close>

datatype 'e error = New string | Foreign 'e

text \<open>
  \<^verbatim>\<open>Field\<close> is declared outside csv.go; CSV reads its members \<^verbatim>\<open>Name\<close>, \<^verbatim>\<open>Function\<close> and
  \<^verbatim>\<open>Params\<close>. The parameter bag is opaque to CSV, which only hands it to the generator, so its
  type is left open. The loop of CSV works on a copy \<^verbatim>\<open>field\<close> of each descriptor and passes
  \<^verbatim>\<open>&field.Params\<close>, a pointer into that copy: CSV itself never writes to a descriptor. What
  a generator does with the bag it is handed belongs to the generator, which is not in
  csv.go, and so to the outside state \<open>'s\<close> below.
\<close>

record 'p Field =
  Name :: string
  Function :: string
  Params :: 'p

text \<open>
  \<^verbatim>\<open>CSVOptions\<close> (csv.go, lines 13 to 17). A Go slice may be \<^verbatim>\<open>nil\<close>: \<open>None\<close> is the
  \<^verbatim>\<open>nil\<close> slice, \<open>Some xs\<close> a slice with the elements \<open>xs\<close>. \<^verbatim>\<open>RowCount\<close> is a Go
  \<^verbatim>\<open>int\<close>; CSV compares it and counts up to it from 1, which cannot overflow, so it is an
  unbounded integer here.
\<close>

record 'p CSVOptions =
  Delimiter :: string
  RowCount :: int
  Fields :: "'p Field list option"

definition slice_elems :: "'a list option \<Rightarrow> 'a list" where
  "slice_elems sl = (case sl of None \<Rightarrow> [] | Some xs \<Rightarrow> xs)"

definition slice_len :: "'a list option \<Rightarrow> int" where
  "slice_len sl = int (length (slice_elems sl))"

text \<open>
  The function registry is declared outside csv.go. \<^verbatim>\<open>GetFuncLookup(name)\<close> returns
  \<^verbatim>\<open>nil\<close> (\<open>None\<close>) or an \<^verbatim>\<open>Info\<close> whose \<^verbatim>\<open>Call\<close> member is invoked with the field's parameter
  bag. A generator draws on state outside CSV (the random source), so a call takes the state
  \<open>'s\<close> of that outside world and gives it back; it returns a value or an error.
\<close>

type_synonym ('p, 'v, 'e, 's) Call = "'p \<Rightarrow> 's \<Rightarrow> ('e error + 'v) \<times> 's"

type_synonym ('p, 'v, 'e, 's) registry = "string \<Rightarrow> ('p, 'v, 'e, 's) Call option"

section \<open>Strings\<close>

text \<open>
  \<^verbatim>\<open>strings.ToLower\<close>, on the bytes of the string: the letters A to Z are mapped to a to z.
  CSV only compares the result with \<^verbatim>\<open>"tab"\<close>, and no letter outside A to Z has t, a or b as
  its lower case, so the comparison comes out as in Go for every string.
\<close>

definition toLower_byte :: "char \<Rightarrow> char" where
  "toLower_byte c =
     (let n = (of_char c :: nat) in if 65 \<le> n \<and> n \<le> 90 then char_of (n + 32) else c)"

definition ToLower :: "string \<Rightarrow> string" where
  "ToLower s = map toLower_byte s"

text \<open>\<^verbatim>\<open>fmt.Sprintf("%d", i)\<close>: the decimal digits of \<open>i\<close>, after a minus sign when negative.\<close>

definition digit :: "nat \<Rightarrow> char" where
  "digit d = char_of (48 + d)"

function decimal :: "nat \<Rightarrow> string" where
  "decimal n = (if n < 10 then [digit n] else decimal (n div 10) @ [digit (n mod 10)])"
  by pat_completeness auto
termination
  by (relation "measure id") auto

definition Sprintf_d :: "int \<Rightarrow> string" where
  "Sprintf_d i = (if i < 0 then CHR ''-'' # decimal (nat (- i)) else decimal (nat i))"

section \<open>The csv writer\<close>

text \<open>
  \<^verbatim>\<open>csv.NewWriter(b)\<close> over a fresh \<^verbatim>\<open>bytes.Buffer\<close>. The writer buffers what \<^verbatim>\<open>Write\<close> is
  given; the model keeps the records themselves, in order, and encodes them when the buffer is
  read after \<^verbatim>\<open>Flush\<close>.
\<close>

record Writer =
  Comma :: char
  written :: "string list list"

definition NewWriter :: Writer where
  "NewWriter = \<lparr>Comma = CHR '','', written = []\<rparr>"

definition Write :: "Writer \<Rightarrow> string list \<Rightarrow> Writer" where
  "Write w rec = w\<lparr>written := written w @ [rec]\<rparr>"

text \<open>
  Modelled from the spec: the Table Encoder, which is the \<^verbatim>\<open>encoding/csv\<close> writer of Go's
  standard library and not part of csv.go. The spec: a field is quoted if it contains the
  delimiter, a newline, or a quote character.
\<close>

definition fieldNeedsQuotes :: "char \<Rightarrow> string \<Rightarrow> bool" where
  "fieldNeedsQuotes comma field \<longleftrightarrow>
     comma \<in> set field \<or> CHR 0x0A \<in> set field \<or> CHR 0x22 \<in> set field"

text \<open>
  Modelled from the spec: the quoting of the Table Encoder. The spec: embedded quote characters
  are doubled.
\<close>

definition quoteField :: "string \<Rightarrow> string" where
  "quoteField field =
     CHR 0x22 # concat (map (\<lambda>c. if c = CHR 0x22 then [CHR 0x22, CHR 0x22] else [c]) field)
       @ [CHR 0x22]"

text \<open>Modelled from the spec: one field as the Table Encoder writes it, quoted on demand.\<close>

definition writeField :: "char \<Rightarrow> string \<Rightarrow> string" where
  "writeField comma field = (if fieldNeedsQuotes comma field then quoteField field else field)"

text \<open>
  Modelled from the spec: the fields of one row as the Table Encoder writes them. The spec: the
  delimiter character is the field separator for every row including the header.
\<close>

fun writeFields :: "char \<Rightarrow> string list \<Rightarrow> string" where
  "writeFields comma [] = []"
| "writeFields comma [field] = writeField comma field"
| "writeFields comma (field # rest) = writeField comma field @ comma # writeFields comma rest"

text \<open>
  Modelled from the spec: one row as the Table Encoder writes it, ended by the line feed that is
  the encoder's default line ending.
\<close>

definition writeRecord :: "char \<Rightarrow> string list \<Rightarrow> string" where
  "writeRecord comma rec = writeFields comma rec @ [CHR 0x0A]"

text \<open>\<^verbatim>\<open>w.Flush()\<close> followed by \<^verbatim>\<open>b.Bytes()\<close>: every record written, encoded, in order.\<close>

definition Bytes :: "Writer \<Rightarrow> string" where
  "Bytes w = concat (map (writeRecord (Comma w)) (written w))"

text \<open>\<^verbatim>\<open>w.Error()\<close>: a write to a \<^verbatim>\<open>bytes.Buffer\<close> never fails.\<close>

definition Error :: "Writer \<Rightarrow> 'e error option" where
  "Error w = None"

section \<open>CSV\<close>

text \<open>The header loop (lines 47 to 50): \<^verbatim>\<open>header[i] = field.Name\<close> for every field.\<close>

fun header_loop :: "nat \<Rightarrow> 'p Field list \<Rightarrow> string list \<Rightarrow> string list" where
  "header_loop i [] header = header"
| "header_loop i (field # rest) header = header_loop (Suc i) rest (header[i := Name field])"

text \<open>
  The loop over the fields of one body row (lines 58 to 76), for the row index \<open>i\<close>: \<open>ii\<close> is
  the index of the next field, \<open>vr\<close> the row being filled. An unknown function and a failing
  generator leave the loop, and CSV, with the error.
\<close>

fun fields_loop ::
  "('p, 'v, 'e, 's) registry \<Rightarrow> ('v \<Rightarrow> string) \<Rightarrow> int \<Rightarrow> nat \<Rightarrow> 'p Field list \<Rightarrow> string list \<Rightarrow> 's
     \<Rightarrow> ('e error + string list) \<times> 's" where
  "fields_loop GetFuncLookup Sprintf_v i ii [] vr s = (Inr vr, s)"
| "fields_loop GetFuncLookup Sprintf_v i ii (field # rest) vr s =
     (if Function field = ''autoincrement''
      then fields_loop GetFuncLookup Sprintf_v i (Suc ii) rest (vr[ii := Sprintf_d i]) s
      else
        (case GetFuncLookup (Function field) of
           None \<Rightarrow>
             (Inl (New (''Invalid function, '' @ Function field @ '' does not exist'')), s)
         | Some call \<Rightarrow>
             (case call (Params field) s of
                (Inl err, s') \<Rightarrow> (Inl err, s')
              | (Inr val, s') \<Rightarrow>
                  fields_loop GetFuncLookup Sprintf_v i (Suc ii) rest
                    (vr[ii := Sprintf_v val]) s')))"

text \<open>
  The loop over the rows (lines 54 to 79): \<^verbatim>\<open>for i := 1; i < int(co.RowCount); i++\<close>, here
  from \<open>i\<close> up to but excluding \<open>n\<close>. Every row starts as \<^verbatim>\<open>make([]string, len(co.Fields))\<close>
  and is written once its fields are filled.
\<close>

function rows_loop ::
  "('p, 'v, 'e, 's) registry \<Rightarrow> ('v \<Rightarrow> string) \<Rightarrow> int \<Rightarrow> int \<Rightarrow> 'p Field list \<Rightarrow> Writer \<Rightarrow> 's
     \<Rightarrow> ('e error + Writer) \<times> 's" where
  "rows_loop GetFuncLookup Sprintf_v i n flds w s =
     (if i < n
      then
        (case fields_loop GetFuncLookup Sprintf_v i 0 flds (replicate (length flds) []) s of
           (Inl err, s') \<Rightarrow> (Inl err, s')
         | (Inr vr, s') \<Rightarrow> rows_loop GetFuncLookup Sprintf_v (i + 1) n flds (Write w vr) s')
      else (Inr w, s))"
  by pat_completeness auto
termination
  by (relation "measure (\<lambda>(GetFuncLookup, Sprintf_v, i, n, flds, w, s). nat (n - i))") auto

text \<open>
  Lines 20 to 79 of CSV: the checks, the header and the body rows. The result is the error
  CSV returns with, or the writer after the last \<^verbatim>\<open>Write\<close>; with it the options record behind
  the pointer \<^verbatim>\<open>co\<close> as CSV leaves it, and the state of the outside world. The two parameters
  are the registry and \<^verbatim>\<open>fmt.Sprintf("%v", value)\<close> on the values of the generators. The
  assignments to \<^verbatim>\<open>co.Delimiter\<close> of lines 23 and 26 give the records \<open>co1\<close> and \<open>co\<close>. Where
  \<^verbatim>\<open>[]rune(co.Delimiter)[0]\<close> is taken, the delimiter is the comma or the tab character, a
  string of one byte, which is its first rune.
\<close>

definition CSV_records ::
  "('p, 'v, 'e, 's) registry \<Rightarrow> ('v \<Rightarrow> string) \<Rightarrow> 'p CSVOptions \<Rightarrow> 's
     \<Rightarrow> ('e error + Writer) \<times> 'p CSVOptions \<times> 's" where
  "CSV_records GetFuncLookup Sprintf_v co0 s =
     (let co1 = (if Delimiter co0 = [] then co0\<lparr>Delimiter := '',''\<rparr> else co0);
          co = (if ToLower (Delimiter co1) = ''tab'' then co1\<lparr>Delimiter := [CHR 0x09]\<rparr> else co1)
      in
        if Delimiter co \<noteq> '','' \<and> Delimiter co \<noteq> [CHR 0x09]
        then (Inl (New ''Invalid delimiter type''), co, s)
        else if Fields co = None \<or> slice_len (Fields co) \<le> 0
        then (Inl (New ''Must pass fields in order to build json object(s)''), co, s)
        else if RowCount co \<le> 0
        then (Inl (New ''Must have row count''), co, s)
        else
          (let flds = slice_elems (Fields co);
               w = NewWriter\<lparr>Comma := hd (Delimiter co)\<rparr>;
               header = header_loop 0 flds (replicate (length flds) []);
               w = Write w header
           in
             (case rows_loop GetFuncLookup Sprintf_v 1 (RowCount co) flds w s of
                (Inl err, s') \<Rightarrow> (Inl err, co, s')
              | (Inr w', s') \<Rightarrow> (Inr w', co, s'))))"

text \<open>
  CSV (lines 20 to 88). The Go result pair \<^verbatim>\<open>([]byte, error)\<close> is a pair of options, \<open>None\<close>
  for \<^verbatim>\<open>nil\<close>.
\<close>

definition CSV ::
  "('p, 'v, 'e, 's) registry \<Rightarrow> ('v \<Rightarrow> string) \<Rightarrow> 'p CSVOptions \<Rightarrow> 's
     \<Rightarrow> (string option \<times> 'e error option) \<times> 'p CSVOptions \<times> 's" where
  "CSV GetFuncLookup Sprintf_v co0 s =
     (case CSV_records GetFuncLookup Sprintf_v co0 s of
        (Inl err, co, s') \<Rightarrow> ((None, Some err), co, s')
      | (Inr w, co, s') \<Rightarrow>
          (case Error w of
             Some err \<Rightarrow> ((None, Some err), co, s')
           | None \<Rightarrow> ((Some (Bytes w), None), co, s')))"

text \<open>The error kinds of the spec, as CSV builds them.\<close>

definition InvalidDelimiter :: "'e error" where
  "InvalidDelimiter = New ''Invalid delimiter type''"

definition MissingFields :: "'e error" where
  "MissingFields = New ''Must pass fields in order to build json object(s)''"

definition MissingRowCount :: "'e error" where
  "MissingRowCount = New ''Must have row count''"

definition UnknownFunction :: "string \<Rightarrow> 'e error" where
  "UnknownFunction name = New (''Invalid function, '' @ name @ '' does not exist'')"

section \<open>Notions for the statements\<close>

text \<open>
  Lines 22 to 27 as a function of the delimiter string: what \<^verbatim>\<open>co.Delimiter\<close> holds when the
  delimiter check of line 28 reads it.
\<close>

definition normalize_delimiter :: "string \<Rightarrow> string" where
  "normalize_delimiter d =
     (let d1 = (if d = [] then '','' else d) in if ToLower d1 = ''tab'' then [CHR 0x09] else d1)"

text \<open>The delimiters that pass the check of line 28.\<close>

definition valid_delimiter :: "string \<Rightarrow> bool" where
  "valid_delimiter d \<longleftrightarrow> d = [] \<or> d = '','' \<or> d = [CHR 0x09] \<or> ToLower d = ''tab''"

text \<open>Lines 42 to 79, which run once the three checks have passed.\<close>

definition CSV_checked ::
  "('p, 'v, 'e, 's) registry \<Rightarrow> ('v \<Rightarrow> string) \<Rightarrow> 'p CSVOptions \<Rightarrow> 's
     \<Rightarrow> ('e error + Writer) \<times> 's" where
  "CSV_checked GetFuncLookup Sprintf_v co s =
     rows_loop GetFuncLookup Sprintf_v 1 (RowCount co) (slice_elems (Fields co))
       (Write (NewWriter\<lparr>Comma := hd (Delimiter co)\<rparr>) (map Name (slice_elems (Fields co)))) s"

text \<open>
  The cell \<open>c\<close> is what the field descriptor \<open>field\<close> resolves to in the row of index \<open>i\<close>: the
  row index in decimal for \<^verbatim>\<open>autoincrement\<close>, otherwise the formatted value of a successful call
  of the registered generator on the field's parameters.
\<close>

definition cell_of ::
  "('p, 'v, 'e, 's) registry \<Rightarrow> ('v \<Rightarrow> string) \<Rightarrow> int \<Rightarrow> 'p Field \<Rightarrow> string \<Rightarrow> bool" where
  "cell_of GetFuncLookup Sprintf_v i field c \<longleftrightarrow>
     (if Function field = ''autoincrement'' then c = Sprintf_d i
      else \<exists>call val s s'. GetFuncLookup (Function field) = Some call \<and>
             call (Params field) s = (Inr val, s') \<and> c = Sprintf_v val)"

definition row_of ::
  "('p, 'v, 'e, 's) registry \<Rightarrow> ('v \<Rightarrow> string) \<Rightarrow> 'p Field list \<Rightarrow> int \<Rightarrow> string list \<Rightarrow> bool" where
  "row_of GetFuncLookup Sprintf_v flds i vr \<longleftrightarrow>
     length vr = length flds \<and>
     (\<forall>j < length flds. cell_of GetFuncLookup Sprintf_v i (flds ! j) (vr ! j))"

section \<open>A reader for the encoded table\<close>

text \<open>
  Modelled from the spec: the standard CSV reader that the round-trip property of the spec
  decodes with; no reader is part of csv.go. It follows the grammar of RFC 4180, with the
  writer's separator in the place of the comma and the line feed the writer emits as the end
  of a record. A field is escaped or not. After a field comes the separator and the next
  field, or the line feed that ends the record. Every reader returns what it has read and the
  input left, or \<open>None\<close> when the input is not well formed.

  \<open>readQuoted\<close> reads an escaped field from behind its opening quote character to its closing
  one: a pair of quote characters stands for one, every other character for itself.
\<close>

fun readQuoted :: "string \<Rightarrow> (string \<times> string) option" where
  "readQuoted [] = None"
| "readQuoted (c # cs) =
     (if c = CHR 0x22 then
        (case cs of
           [] \<Rightarrow> Some ([], [])
         | d # cs' \<Rightarrow>
             if d = CHR 0x22
             then map_option (\<lambda>(field, rest). (CHR 0x22 # field, rest)) (readQuoted cs')
             else Some ([], cs))
      else map_option (\<lambda>(field, rest). (c # field, rest)) (readQuoted cs))"

text \<open>
  Modelled from the spec: the characters of a field that is not escaped, which are all but the
  separator, the line feed and the quote character.
\<close>

definition plain_char :: "char \<Rightarrow> char \<Rightarrow> bool" where
  "plain_char comma c \<longleftrightarrow> c \<noteq> comma \<and> c \<noteq> CHR 0x0A \<and> c \<noteq> CHR 0x22"

text \<open>
  Modelled from the spec: one field of the reader, escaped when it starts with a quote
  character.
\<close>

definition readField :: "char \<Rightarrow> string \<Rightarrow> (string \<times> string) option" where
  "readField comma inp =
     (case inp of
        [] \<Rightarrow> Some ([], [])
      | c # cs \<Rightarrow>
          if c = CHR 0x22 then readQuoted cs
          else Some (takeWhile (plain_char comma) inp, dropWhile (plain_char comma) inp))"

text \<open>
  Modelled from the spec: one record of the reader, its fields up to the line feed. The
  recursion is on the input left by a field, which is shorter than the input.
\<close>

function readRecord :: "char \<Rightarrow> string \<Rightarrow> (string list \<times> string) option" where
  "readRecord comma inp =
     (case readField comma inp of
        None \<Rightarrow> None
      | Some (field, rest) \<Rightarrow>
          (case rest of
             [] \<Rightarrow> None
           | c # rest' \<Rightarrow>
               if c = CHR 0x0A then Some ([field], rest')
               else if c = comma
               then map_option (\<lambda>(rec, rest''). (field # rec, rest'')) (readRecord comma rest')
               else None))"
  by pat_completeness auto
termination
proof (relation "measure (\<lambda>(comma, inp). length inp)")
  show "wf (measure (\<lambda>(comma, inp). length inp))" by simp
next
  fix comma inp x2 field rest c rest'
  assume read: "readField comma inp = Some x2" "(field, rest) = x2" "rest = c # rest'"
  have quoted: "length r \<le> length cs" if "readQuoted cs = Some (f, r)" for cs f r
    using that
    by (induction cs arbitrary: f rule: readQuoted.induct)
      (fastforce split: if_splits list.splits)+
  have "length rest \<le> length inp"
  proof (cases inp)
    case Nil
    with read show ?thesis by (auto simp: readField_def)
  next
    case (Cons d ds)
    show ?thesis
    proof (cases "d = CHR 0x22")
      case True
      with read Cons have "readQuoted ds = Some (field, rest)"
        by (auto simp: readField_def)
      from quoted [OF this] Cons show ?thesis by simp
    next
      case False
      with read Cons have "rest = dropWhile (plain_char comma) inp"
        by (auto simp: readField_def)
      then show ?thesis by (simp add: length_dropWhile_le)
    qed
  qed
  then show "((comma, rest'), (comma, inp)) \<in> measure (\<lambda>(comma, inp). length inp)"
    using read(3) by simp
qed

text \<open>
  Modelled from the spec: the reader on a whole table, record after record until the input is
  used up. A record takes at least its line feed from the input.
\<close>

function readAll :: "char \<Rightarrow> string \<Rightarrow> string list list option" where
  "readAll comma inp =
     (if inp = [] then Some []
      else
        (case readRecord comma inp of
           None \<Rightarrow> None
         | Some (rec, rest) \<Rightarrow> map_option ((#) rec) (readAll comma rest)))"
  by pat_completeness auto
termination
proof (relation "measure (\<lambda>(comma, inp). length inp)")
  show "wf (measure (\<lambda>(comma, inp). length inp))" by simp
next
  fix comma inp x2 rec rest
  assume read: "readRecord comma inp = Some x2" "(rec, rest) = x2"
  have shorter: "length r < length i" if "readRecord comma i = Some (fs, r)" for i fs r
    using that
  proof (induction "length i" arbitrary: i fs r rule: less_induct)
    case less
    from less.prems obtain field q where f: "readField comma i = Some (field, q)"
      by (auto simp: readRecord.simps [of comma i] split: option.splits)
    with less.prems obtain c q' where q: "q = c # q'"
      by (cases q) (auto simp: readRecord.simps [of comma i])
    have "length q \<le> length i"
    proof (cases i)
      case Nil
      with f show ?thesis by (simp add: readField_def)
    next
      case (Cons d ds)
      have quoted: "length r \<le> length cs" if "readQuoted cs = Some (g, r)" for cs g r
        using that
        by (induction cs arbitrary: g rule: readQuoted.induct)
          (fastforce split: if_splits list.splits)+
      show ?thesis
      proof (cases "d = CHR 0x22")
        case True
        with f Cons have "readQuoted ds = Some (field, q)"
          by (simp add: readField_def)
        from quoted [OF this] Cons show ?thesis by simp
      next
        case False
        with f Cons have "q = dropWhile (plain_char comma) i"
          by (simp add: readField_def)
        then show ?thesis by (simp add: length_dropWhile_le)
      qed
    qed
    with q have len: "length q' < length i" by simp
    show ?case
    proof (cases "c = CHR 0x0A")
      case True
      with less.prems f q len show ?thesis
        by (simp add: readRecord.simps [of comma i])
    next
      case False
      with less.prems f q obtain fs' where "readRecord comma q' = Some (fs', r)"
        by (auto simp: readRecord.simps [of comma i] split: if_splits)
      from less.hyps [OF len this] len show ?thesis by simp
    qed
  qed
  from read have "readRecord comma inp = Some (rec, rest)" by simp
  from shorter [OF this]
  show "((comma, rest), (comma, inp)) \<in> measure (\<lambda>(comma, inp). length inp)"
    by simp
qed

section \<open>A registry for the examples\<close>

text \<open>
  Three generators over a counter as the outside state: \<^verbatim>\<open>literal\<close> returns its parameter,
  \<^verbatim>\<open>counter\<close> returns the counter and advances it, \<^verbatim>\<open>flaky\<close> succeeds on its first call and
  fails from then on.
\<close>

definition demo :: "(string, string, unit, nat) registry" where
  "demo name =
     (if name = ''literal'' then Some (\<lambda>p s. (Inr p, s))
      else if name = ''counter'' then Some (\<lambda>p s. (Inr (decimal s), Suc s))
      else if name = ''flaky'' then
        Some (\<lambda>p s. if 1 \<le> s then (Inl (Foreign ()), s) else (Inr p, Suc s))
      else None)"

definition demo_fields :: "string Field list" where
  "demo_fields =
     [\<lparr>Name = ''id'', Function = ''autoincrement'', Params = ''''\<rparr>,
      \<lparr>Name = ''greeting'', Function = ''literal'', Params = ''hi, there''\<rparr>]"

definition demo_co :: "string CSVOptions" where
  "demo_co = \<lparr>Delimiter = '','', RowCount = 3, Fields = Some demo_fields\<rparr>"

definition id_field :: "string Field" where
  "id_field = \<lparr>Name = ''id'', Function = ''autoincrement'', Params = ''''\<rparr>"

definition unknown_field :: "string Field" where
  "unknown_field = \<lparr>Name = ''x'', Function = ''nope'', Params = ''''\<rparr>"

definition flaky_field :: "string Field" where
  "flaky_field = \<lparr>Name = ''greeting'', Function = ''flaky'', Params = ''hi, there''\<rparr>"

section \<open>The loops\<close>

lemma header_loop_eq:
  "i + length fs \<le> length h \<Longrightarrow>
     header_loop i fs h = take i h @ map Name fs @ drop (i + length fs) h"
proof (induction fs arbitrary: i h)
  case Nil
  then show ?case by simp
next
  case (Cons f fs)
  have "header_loop (Suc i) fs (h[i := Name f]) =
          take (Suc i) (h[i := Name f]) @ map Name fs @ drop (Suc i + length fs) (h[i := Name f])"
    using Cons.prems by (intro Cons.IH) simp
  moreover have "take (Suc i) (h[i := Name f]) = take i h @ [Name f]"
    using Cons.prems by (simp add: take_Suc_conv_app_nth)
  ultimately show ?case by simp
qed

lemma header_loop_map: "header_loop 0 fs (replicate (length fs) []) = map Name fs"
  by (simp add: header_loop_eq)

lemma fields_loop_Inr:
  "fields_loop reg fmt i ii fs vr s = (Inr vr', s') \<Longrightarrow> ii + length fs \<le> length vr \<Longrightarrow>
     length vr' = length vr \<and>
     (\<forall>j < ii. vr' ! j = vr ! j) \<and>
     (\<forall>j < length fs. cell_of reg fmt i (fs ! j) (vr' ! (ii + j)))"
proof (induction fs arbitrary: ii vr s)
  case Nil
  then show ?case by simp
next
  case (Cons f fs)
  show ?case
  proof (cases "Function f = ''autoincrement''")
    case True
    with Cons.prems have run: "fields_loop reg fmt i (Suc ii) fs (vr[ii := Sprintf_d i]) s = (Inr vr', s')"
      by simp
    from Cons.IH [OF run] Cons.prems(2)
    have ih: "length vr' = length vr" "\<forall>j < Suc ii. vr' ! j = (vr[ii := Sprintf_d i]) ! j"
      "\<forall>j < length fs. cell_of reg fmt i (fs ! j) (vr' ! (Suc ii + j))"
      by simp_all
    have here: "vr' ! ii = Sprintf_d i" using ih(2) Cons.prems(2) by simp
    have "cell_of reg fmt i ((f # fs) ! j) (vr' ! (ii + j))" if "j < length (f # fs)" for j
    proof (cases j)
      case 0
      then show ?thesis using here True by (simp add: cell_of_def)
    next
      case (Suc k)
      then show ?thesis using ih(3) that by simp
    qed
    moreover have "\<forall>j < ii. vr' ! j = vr ! j" using ih(2) by simp
    ultimately show ?thesis using ih(1) by blast
  next
    case False
    with Cons.prems obtain call val s1 where
      look: "reg (Function f) = Some call" and call: "call (Params f) s = (Inr val, s1)" and
      run: "fields_loop reg fmt i (Suc ii) fs (vr[ii := fmt val]) s1 = (Inr vr', s')"
      by (auto split: option.splits prod.splits sum.splits)
    from Cons.IH [OF run] Cons.prems(2)
    have ih: "length vr' = length vr" "\<forall>j < Suc ii. vr' ! j = (vr[ii := fmt val]) ! j"
      "\<forall>j < length fs. cell_of reg fmt i (fs ! j) (vr' ! (Suc ii + j))"
      by simp_all
    have here: "vr' ! ii = fmt val" using ih(2) Cons.prems(2) by simp
    have "cell_of reg fmt i ((f # fs) ! j) (vr' ! (ii + j))" if "j < length (f # fs)" for j
    proof (cases j)
      case 0
      then show ?thesis using here False look call by (auto simp: cell_of_def)
    next
      case (Suc k)
      then show ?thesis using ih(3) that by simp
    qed
    moreover have "\<forall>j < ii. vr' ! j = vr ! j" using ih(2) by simp
    ultimately show ?thesis using ih(1) by blast
  qed
qed

lemma fields_loop_row:
  "fields_loop reg fmt i 0 fs (replicate (length fs) []) s = (Inr vr, s') \<Longrightarrow> row_of reg fmt fs i vr"
  using fields_loop_Inr [of reg fmt i 0 fs "replicate (length fs) []" s vr s']
  by (simp add: row_of_def)

lemma rows_loop_Inr:
  "rows_loop reg fmt i n fs w s = (Inr w', s') \<Longrightarrow>
     \<exists>body. w' = w\<lparr>written := written w @ body\<rparr> \<and> length body = nat (n - i) \<and>
       (\<forall>k < length body. row_of reg fmt fs (i + int k) (body ! k))"
proof (induction reg fmt i n fs w s rule: rows_loop.induct)
  case (1 reg fmt i n fs w s)
  show ?case
  proof (cases "i < n")
    case False
    with "1.prems" have "w' = w" by simp
    then show ?thesis using False by (intro exI [of _ "[]"]) simp
  next
    case True
    with "1.prems" obtain vr s1 where
      row: "fields_loop reg fmt i 0 fs (replicate (length fs) []) s = (Inr vr, s1)" and
      run: "rows_loop reg fmt (i + 1) n fs (Write w vr) s1 = (Inr w', s')"
      by (auto split: prod.splits sum.splits)
    from "1.IH" [OF True row [symmetric] refl run] obtain body where
      body: "w' = (Write w vr)\<lparr>written := written (Write w vr) @ body\<rparr>"
        "length body = nat (n - (i + 1))"
        "\<forall>k < length body. row_of reg fmt fs (i + 1 + int k) (body ! k)"
      by blast
    have "row_of reg fmt fs (i + int k) ((vr # body) ! k)" if "k < length (vr # body)" for k
    proof (cases k)
      case 0
      then show ?thesis using fields_loop_row [OF row] by simp
    next
      case (Suc m)
      then show ?thesis using body(3) that by (simp add: add.assoc)
    qed
    moreover have "w' = w\<lparr>written := written w @ vr # body\<rparr>"
      using body(1) by (simp add: Write_def)
    moreover have "length (vr # body) = nat (n - i)"
      using body(2) True by simp
    ultimately show ?thesis by blast
  qed
qed

lemma fields_loop_append:
  "fields_loop reg fmt i ii (pre @ rest) vr s =
     (case fields_loop reg fmt i ii pre vr s of
        (Inl err, s') \<Rightarrow> (Inl err, s')
      | (Inr vr', s') \<Rightarrow> fields_loop reg fmt i (ii + length pre) rest vr' s')"
  by (induction pre arbitrary: ii vr s) (simp_all split: option.splits prod.splits sum.splits)

lemma rows_loop_split:
  assumes "i \<le> k" "k \<le> n"
  shows "rows_loop reg fmt i n fs w s =
     (case rows_loop reg fmt i k fs w s of
        (Inl err, s') \<Rightarrow> (Inl err, s')
      | (Inr w', s') \<Rightarrow> rows_loop reg fmt k n fs w' s')"
  using assms
proof (induction reg fmt i k fs w s rule: rows_loop.induct)
  case (1 reg fmt i k fs w s)
  show ?case
  proof (cases "i < k")
    case False
    with "1.prems" have "i = k" by simp
    then show ?thesis
      by (simp add: rows_loop.simps [of reg fmt k k fs w s])
  next
    case True
    then have n: "i < n" using "1.prems" by simp
    obtain r s1 where row: "fields_loop reg fmt i 0 fs (replicate (length fs) []) s = (r, s1)"
      by (cases "fields_loop reg fmt i 0 fs (replicate (length fs) []) s")
    show ?thesis
    proof (cases r)
      case (Inl err)
      with True n row show ?thesis
        by (simp add: rows_loop.simps [of reg fmt i n fs w s]
            rows_loop.simps [of reg fmt i k fs w s])
    next
      case (Inr vr)
      have "i + 1 \<le> k" using True by simp
      from "1.IH" [OF True row [symmetric] Inr this "1.prems"(2)]
      have "rows_loop reg fmt (i + 1) n fs (Write w vr) s1 =
        (case rows_loop reg fmt (i + 1) k fs (Write w vr) s1 of
           (Inl err, s') \<Rightarrow> (Inl err, s')
         | (Inr w', s') \<Rightarrow> rows_loop reg fmt k n fs w' s')" .
      with True n row Inr show ?thesis
        by (simp add: rows_loop.simps [of reg fmt i n fs w s]
            rows_loop.simps [of reg fmt i k fs w s])
    qed
  qed
qed

lemma rows_loop_row_fails:
  assumes "i < n" "fields_loop reg fmt i 0 fs (replicate (length fs) []) s = (Inl err, s')"
  shows "rows_loop reg fmt i n fs w s = (Inl err, s')"
  using assms by (simp add: rows_loop.simps [of reg fmt i n fs w s])

lemma fields_loop_cong_registry:
  assumes "\<And>name. name \<noteq> ''autoincrement'' \<Longrightarrow> reg' name = reg name"
  shows "fields_loop reg' fmt i ii fs vr s = fields_loop reg fmt i ii fs vr s"
  using assms
  by (induction fs arbitrary: ii vr s) (simp_all split: option.splits prod.splits sum.splits)

lemma rows_loop_cong_registry:
  assumes "\<And>name. name \<noteq> ''autoincrement'' \<Longrightarrow> reg' name = reg name"
  shows "rows_loop reg' fmt i n fs w s = rows_loop reg fmt i n fs w s"
  using assms
proof (induction reg fmt i n fs w s rule: rows_loop.induct)
  case (1 reg fmt i n fs w s)
  have same: "fields_loop reg' fmt i 0 fs (replicate (length fs) []) s =
      fields_loop reg fmt i 0 fs (replicate (length fs) []) s"
    using "1.prems" by (rule fields_loop_cong_registry)
  show ?case
  proof (cases "i < n")
    case False
    then show ?thesis by simp
  next
    case True
    obtain r s1 where row: "fields_loop reg fmt i 0 fs (replicate (length fs) []) s = (r, s1)"
      by (cases "fields_loop reg fmt i 0 fs (replicate (length fs) []) s")
    show ?thesis
    proof (cases r)
      case (Inl err)
      with True row same show ?thesis by simp
    next
      case (Inr vr)
      from "1.IH" [OF True row [symmetric] Inr "1.prems"]
      have "rows_loop reg' fmt (i + 1) n fs (Write w vr) s1 =
              rows_loop reg fmt (i + 1) n fs (Write w vr) s1" .
      with True row same Inr show ?thesis by simp
    qed
  qed
qed

lemma fields_loop_succeeds:
  assumes "\<forall>f \<in> set fs. Function f = ''autoincrement'' \<or>
             (\<exists>call. reg (Function f) = Some call \<and> (\<forall>s. \<exists>val s'. call (Params f) s = (Inr val, s')))"
  shows "\<exists>vr' s'. fields_loop reg fmt i ii fs vr s = (Inr vr', s')"
  using assms
proof (induction fs arbitrary: ii vr s)
  case Nil
  then show ?case by simp
next
  case (Cons f fs)
  show ?case
  proof (cases "Function f = ''autoincrement''")
    case True
    then show ?thesis using Cons.IH Cons.prems by simp
  next
    case False
    with Cons.prems obtain call val s1 where
      "reg (Function f) = Some call" "call (Params f) s = (Inr val, s1)"
      by fastforce
    then show ?thesis using False Cons.IH [of "Suc ii" "vr[ii := fmt val]" s1] Cons.prems by simp
  qed
qed

lemma rows_loop_succeeds:
  assumes "\<forall>f \<in> set fs. Function f = ''autoincrement'' \<or>
             (\<exists>call. reg (Function f) = Some call \<and> (\<forall>s. \<exists>val s'. call (Params f) s = (Inr val, s')))"
  shows "\<exists>w' s'. rows_loop reg fmt i n fs w s = (Inr w', s')"
  using assms
proof (induction reg fmt i n fs w s rule: rows_loop.induct)
  case (1 reg fmt i n fs w s)
  show ?case
  proof (cases "i < n")
    case False
    then show ?thesis by simp
  next
    case True
    from fields_loop_succeeds [OF "1.prems"] obtain vr s1 where
      row: "fields_loop reg fmt i 0 fs (replicate (length fs) []) s = (Inr vr, s1)"
      by blast
    from "1.IH" [OF True row [symmetric] refl "1.prems"] True row show ?thesis
      by (simp add: rows_loop.simps [of reg fmt i n fs w s])
  qed
qed

section \<open>The delimiter\<close>

lemma toLower_byte_eq_iff:
  assumes "97 \<le> (of_char l :: nat)" "(of_char l :: nat) \<le> 122"
  shows "toLower_byte c = l \<longleftrightarrow> c = l \<or> c = char_of ((of_char l :: nat) - 32)"
proof -
  define n where "n = (of_char c :: nat)"
  define m where "m = (of_char l :: nat)"
  have n: "n < 256" and c: "c = char_of n" by (simp_all add: n_def)
  have l: "l = char_of m" by (simp add: m_def)
  have m: "97 \<le> m" "m \<le> 122" using assms by (simp_all add: m_def)
  show ?thesis
  proof (cases "65 \<le> n \<and> n \<le> 90")
    case True
    then have "toLower_byte c = char_of (n + 32)"
      by (simp add: toLower_byte_def n_def Let_def)
    moreover have "char_of (n + 32) = char_of m \<longleftrightarrow> n + 32 = m"
      using True m by (simp add: char_of_eq_iff take_bit_eq_mod)
    moreover have "char_of n = char_of m \<longleftrightarrow> n = m"
      using True m by (simp add: char_of_eq_iff take_bit_eq_mod)
    moreover have "char_of n = char_of (m - 32) \<longleftrightarrow> n = m - 32"
      using True m by (simp add: char_of_eq_iff take_bit_eq_mod)
    ultimately show ?thesis using True m unfolding c l m_def [symmetric] by auto
  next
    case False
    then have low: "toLower_byte c = c"
      by (auto simp add: toLower_byte_def n_def Let_def)
    have "char_of n = char_of (m - 32) \<longleftrightarrow> n = m - 32"
      using n m by (simp add: char_of_eq_iff take_bit_eq_mod)
    then have "c \<noteq> char_of (m - 32)" using False m c by auto
    then show ?thesis using low unfolding m_def by auto
  qed
qed

lemma ToLower_tab_iff:
  "ToLower d = ''tab'' \<longleftrightarrow>
     d \<in> {''tab'', ''taB'', ''tAb'', ''tAB'', ''Tab'', ''TaB'', ''TAb'', ''TAB''}"
proof -
  have upper: "char_of (84 :: nat) = CHR ''T''" "char_of (65 :: nat) = CHR ''A''"
    "char_of (66 :: nat) = CHR ''B''"
    by code_simp+
  have t: "toLower_byte c = CHR ''t'' \<longleftrightarrow> c = CHR ''t'' \<or> c = CHR ''T''" for c
    using toLower_byte_eq_iff [of "CHR ''t''" c] by (simp add: upper)
  have a: "toLower_byte c = CHR ''a'' \<longleftrightarrow> c = CHR ''a'' \<or> c = CHR ''A''" for c
    using toLower_byte_eq_iff [of "CHR ''a''" c] by (simp add: upper)
  have b: "toLower_byte c = CHR ''b'' \<longleftrightarrow> c = CHR ''b'' \<or> c = CHR ''B''" for c
    using toLower_byte_eq_iff [of "CHR ''b''" c] by (simp add: upper)
  have "ToLower d = ''tab'' \<longleftrightarrow>
          (\<exists>x y z. d = [x, y, z] \<and> toLower_byte x = CHR ''t'' \<and> toLower_byte y = CHR ''a'' \<and>
             toLower_byte z = CHR ''b'')"
    by (auto simp: ToLower_def map_eq_Cons_conv)
  then show ?thesis unfolding t a b by auto
qed

lemma normalize_valid:
  "(normalize_delimiter d = '','' \<or> normalize_delimiter d = [CHR 0x09]) = valid_delimiter d"
  by (auto simp: normalize_delimiter_def valid_delimiter_def Let_def ToLower_def)

lemma normalize_delimiter_idem:
  "normalize_delimiter (normalize_delimiter d) = normalize_delimiter d"
  by (simp add: normalize_delimiter_def Let_def ToLower_def)

section \<open>CSV as a whole\<close>

lemma case_result_eq:
  "(case x of (Inl e, s') \<Rightarrow> (Inl e, c, s') | (Inr w, s') \<Rightarrow> (Inr w, c, s')) = (fst x, c, snd x)"
  by (cases x; cases "fst x") auto

lemma fields_check_eq:
  "(Fields c = None \<or> slice_len (Fields c) \<le> 0) = (slice_elems (Fields c) = [])"
  by (cases "Fields c") (simp_all add: slice_len_def slice_elems_def)

lemma CSV_records_unfold:
  "CSV_records reg fmt co0 s =
     (let co = co0\<lparr>Delimiter := normalize_delimiter (Delimiter co0)\<rparr> in
        if Delimiter co \<noteq> '','' \<and> Delimiter co \<noteq> [CHR 0x09]
        then (Inl (New ''Invalid delimiter type''), co, s)
        else if slice_elems (Fields co) = []
        then (Inl (New ''Must pass fields in order to build json object(s)''), co, s)
        else if RowCount co \<le> 0
        then (Inl (New ''Must have row count''), co, s)
        else (fst (CSV_checked reg fmt co s), co, snd (CSV_checked reg fmt co s)))"
proof -
  define co1 where "co1 = (if Delimiter co0 = [] then co0\<lparr>Delimiter := '',''\<rparr> else co0)"
  define co where
    "co = (if ToLower (Delimiter co1) = ''tab'' then co1\<lparr>Delimiter := [CHR 0x09]\<rparr> else co1)"
  have co: "co = co0\<lparr>Delimiter := normalize_delimiter (Delimiter co0)\<rparr>"
    by (simp add: co_def co1_def normalize_delimiter_def Let_def)
  have "CSV_records reg fmt co0 s =
     (if Delimiter co \<noteq> '','' \<and> Delimiter co \<noteq> [CHR 0x09]
        then (Inl (New ''Invalid delimiter type''), co, s)
        else if Fields co = None \<or> slice_len (Fields co) \<le> 0
        then (Inl (New ''Must pass fields in order to build json object(s)''), co, s)
        else if RowCount co \<le> 0
        then (Inl (New ''Must have row count''), co, s)
        else (fst (CSV_checked reg fmt co s), co, snd (CSV_checked reg fmt co s)))"
    unfolding CSV_records_def Let_def case_result_eq CSV_checked_def header_loop_map
      co_def co1_def ..
  then show ?thesis
    unfolding fields_check_eq Let_def co .
qed

lemma CSV_unfold:
  "CSV reg fmt co s =
     (case fst (CSV_records reg fmt co s) of
        Inl err \<Rightarrow> ((None, Some err), snd (CSV_records reg fmt co s))
      | Inr w \<Rightarrow> ((Some (Bytes w), None), snd (CSV_records reg fmt co s)))"
  by (simp add: CSV_def Error_def split: prod.splits sum.splits)

lemma CSV_records_valid:
  assumes "valid_delimiter (Delimiter co)" "slice_elems (Fields co) \<noteq> []" "0 < RowCount co"
  shows "CSV_records reg fmt co s =
           (fst (CSV_checked reg fmt (co\<lparr>Delimiter := normalize_delimiter (Delimiter co)\<rparr>) s),
            co\<lparr>Delimiter := normalize_delimiter (Delimiter co)\<rparr>,
            snd (CSV_checked reg fmt (co\<lparr>Delimiter := normalize_delimiter (Delimiter co)\<rparr>) s))"
  using assms normalize_valid [of "Delimiter co"]
  by (auto simp: CSV_records_unfold Let_def)

lemma CSV_records_Inr:
  assumes "fst (CSV_records reg fmt co s) = Inr w"
  shows "valid_delimiter (Delimiter co) \<and> slice_elems (Fields co) \<noteq> [] \<and> 0 < RowCount co \<and>
         fst (CSV_checked reg fmt (co\<lparr>Delimiter := normalize_delimiter (Delimiter co)\<rparr>) s) = Inr w"
  using assms normalize_valid [of "Delimiter co"]
  by (simp add: CSV_records_unfold Let_def split: if_splits)

lemma CSV_checked_Inr:
  assumes "fst (CSV_checked reg fmt co s) = Inr w"
  shows "\<exists>body. written w = map Name (slice_elems (Fields co)) # body \<and>
           length body = nat (RowCount co - 1) \<and>
           (\<forall>k < length body. row_of reg fmt (slice_elems (Fields co)) (1 + int k) (body ! k)) \<and>
           Comma w = hd (Delimiter co)"
proof -
  define fs where "fs = slice_elems (Fields co)"
  define w0 where "w0 = Write (NewWriter\<lparr>Comma := hd (Delimiter co)\<rparr>) (map Name fs)"
  from assms have "rows_loop reg fmt 1 (RowCount co) fs w0 s = (Inr w, snd (CSV_checked reg fmt co s))"
    by (simp add: CSV_checked_def fs_def w0_def prod_eq_iff)
  from rows_loop_Inr [OF this] obtain body where
    body: "w = w0\<lparr>written := written w0 @ body\<rparr>" "length body = nat (RowCount co - 1)"
      "\<forall>k < length body. row_of reg fmt fs (1 + int k) (body ! k)"
    by blast
  have "written w = map Name fs # body" "Comma w = hd (Delimiter co)"
    using body(1) by (simp_all add: w0_def Write_def NewWriter_def)
  then show ?thesis using body(2,3) unfolding fs_def by (intro exI [of _ body]) simp
qed

lemma CSV_records_grid:
  assumes "fst (CSV_records reg fmt co s) = Inr w"
  shows "\<exists>body. written w = map Name (slice_elems (Fields co)) # body \<and>
           length body = nat (RowCount co - 1) \<and>
           (\<forall>k < length body. row_of reg fmt (slice_elems (Fields co)) (1 + int k) (body ! k)) \<and>
           Comma w = hd (normalize_delimiter (Delimiter co))"
  using CSV_checked_Inr [of reg fmt "co\<lparr>Delimiter := normalize_delimiter (Delimiter co)\<rparr>" s w]
    CSV_records_Inr [OF assms]
  by simp

lemma CSV_records_separator:
  assumes "fst (CSV_records reg fmt co s) = Inr w"
  shows "Comma w = CHR '','' \<or> Comma w = CHR 0x09"
proof -
  from CSV_records_Inr [OF assms] have "valid_delimiter (Delimiter co)" by simp
  then have "normalize_delimiter (Delimiter co) = '','' \<or>
      normalize_delimiter (Delimiter co) = [CHR 0x09]"
    by (simp add: normalize_valid)
  moreover from CSV_records_grid [OF assms]
  have "Comma w = hd (normalize_delimiter (Delimiter co))" by auto
  ultimately show ?thesis by auto
qed

lemma CSV_records_normalized:
  "CSV_records reg fmt (co\<lparr>Delimiter := normalize_delimiter (Delimiter co)\<rparr>) s =
     CSV_records reg fmt co s"
  by (simp add: CSV_records_unfold Let_def normalize_delimiter_idem)

lemma CSV_normalized:
  "CSV reg fmt (co\<lparr>Delimiter := normalize_delimiter (Delimiter co)\<rparr>) s = CSV reg fmt co s"
  by (simp only: CSV_unfold CSV_records_normalized)

lemma CSV_autoincrement_upd:
  "CSV (reg(''autoincrement'' := g)) fmt co s = CSV reg fmt co s"
proof -
  have "rows_loop (reg(''autoincrement'' := g)) fmt i n fs w s = rows_loop reg fmt i n fs w s"
    for i n fs w s
    by (rule rows_loop_cong_registry) simp
  then show ?thesis
    by (simp only: CSV_unfold CSV_records_unfold CSV_checked_def)
qed

lemma CSV_succeeds:
  assumes "valid_delimiter (Delimiter co)" "slice_elems (Fields co) \<noteq> []" "0 < RowCount co"
    and "\<forall>f \<in> set (slice_elems (Fields co)). Function f = ''autoincrement'' \<or>
           (\<exists>call. reg (Function f) = Some call \<and> (\<forall>s. \<exists>val s'. call (Params f) s = (Inr val, s')))"
  shows "\<exists>w s'. CSV reg fmt co s =
           ((Some (Bytes w), None), co\<lparr>Delimiter := normalize_delimiter (Delimiter co)\<rparr>, s')"
proof -
  define co' where "co' = co\<lparr>Delimiter := normalize_delimiter (Delimiter co)\<rparr>"
  have "\<exists>w s'. CSV_checked reg fmt co' s = (Inr w, s')"
    unfolding CSV_checked_def using assms(4) by (intro rows_loop_succeeds) (simp add: co'_def)
  then show ?thesis
    using CSV_records_valid [OF assms(1,2,3), of reg fmt s]
    by (auto simp: CSV_unfold co'_def)
qed

section \<open>The errors of CSV\<close>

lemma error_kinds_distinct:
  "(InvalidDelimiter :: 'e error) \<noteq> MissingFields"
  "(InvalidDelimiter :: 'e error) \<noteq> MissingRowCount"
  "(MissingFields :: 'e error) \<noteq> MissingRowCount"
  "(InvalidDelimiter :: 'e error) \<noteq> UnknownFunction name"
  "(MissingFields :: 'e error) \<noteq> UnknownFunction name"
  "(MissingRowCount :: 'e error) \<noteq> UnknownFunction name"
  by (simp_all add: InvalidDelimiter_def MissingFields_def MissingRowCount_def
      UnknownFunction_def)

lemma UnknownFunction_inject: "(UnknownFunction a :: 'e error) = UnknownFunction b \<longleftrightarrow> a = b"
  by (simp add: UnknownFunction_def)

lemma CSV_invalid_delimiter:
  assumes "\<not> valid_delimiter (Delimiter co)"
  shows "CSV reg fmt co s = ((None, Some InvalidDelimiter), co, s)"
proof -
  have "normalize_delimiter (Delimiter co) = Delimiter co"
    using assms by (simp add: normalize_delimiter_def valid_delimiter_def Let_def)
  moreover have "Delimiter co \<noteq> '',''" "Delimiter co \<noteq> [CHR 0x09]"
    using assms by (simp_all add: valid_delimiter_def)
  ultimately show ?thesis
    by (simp add: CSV_unfold CSV_records_unfold Let_def InvalidDelimiter_def)
qed

lemma CSV_missing_fields:
  assumes "valid_delimiter (Delimiter co)" "slice_elems (Fields co) = []"
  shows "CSV reg fmt co s =
           ((None, Some MissingFields), co\<lparr>Delimiter := normalize_delimiter (Delimiter co)\<rparr>, s)"
  using assms normalize_valid [of "Delimiter co"]
  by (auto simp: CSV_unfold CSV_records_unfold Let_def MissingFields_def)

lemma CSV_missing_row_count:
  assumes "valid_delimiter (Delimiter co)" "slice_elems (Fields co) \<noteq> []" "RowCount co \<le> 0"
  shows "CSV reg fmt co s =
           ((None, Some MissingRowCount), co\<lparr>Delimiter := normalize_delimiter (Delimiter co)\<rparr>, s)"
  using assms normalize_valid [of "Delimiter co"]
  by (auto simp: CSV_unfold CSV_records_unfold Let_def MissingRowCount_def)

lemma CSV_checked_fails_at:
  assumes "1 \<le> k" "k < RowCount co"
    and "CSV_checked reg fmt (co\<lparr>RowCount := k\<rparr>) s = (Inr wk, sk)"
    and "fields_loop reg fmt k 0 (slice_elems (Fields co))
           (replicate (length (slice_elems (Fields co))) []) sk = (Inl err, s')"
  shows "CSV_checked reg fmt co s = (Inl err, s')"
proof -
  define fs where "fs = slice_elems (Fields co)"
  define w0 where "w0 = Write (NewWriter\<lparr>Comma := hd (Delimiter co)\<rparr>) (map Name fs)"
  have before: "rows_loop reg fmt 1 k fs w0 s = (Inr wk, sk)"
    using assms(3) by (simp add: CSV_checked_def fs_def w0_def)
  have "rows_loop reg fmt k (RowCount co) fs wk sk = (Inl err, s')"
    using assms(2,4) unfolding fs_def [symmetric] by (rule rows_loop_row_fails)
  moreover have "rows_loop reg fmt 1 (RowCount co) fs w0 s =
      (case rows_loop reg fmt 1 k fs w0 s of
         (Inl err, s') \<Rightarrow> (Inl err, s')
       | (Inr w', s') \<Rightarrow> rows_loop reg fmt k (RowCount co) fs w' s')"
    using assms(1,2) by (intro rows_loop_split) simp_all
  ultimately show ?thesis
    using before by (simp add: CSV_checked_def fs_def w0_def)
qed

lemma CSV_fails_at:
  assumes valid: "valid_delimiter (Delimiter co)" "slice_elems (Fields co) \<noteq> []"
    and k: "1 \<le> k" "k < RowCount co"
    and before: "CSV_records reg fmt (co\<lparr>RowCount := k\<rparr>) s = (Inr wk, cok, sk)"
    and row: "fields_loop reg fmt k 0 (slice_elems (Fields co))
           (replicate (length (slice_elems (Fields co))) []) sk = (Inl err, s')"
  shows "CSV reg fmt co s =
           ((None, Some err), co\<lparr>Delimiter := normalize_delimiter (Delimiter co)\<rparr>, s')"
proof -
  define co' where "co' = co\<lparr>Delimiter := normalize_delimiter (Delimiter co)\<rparr>"
  have swap: "co\<lparr>RowCount := k, Delimiter := normalize_delimiter (Delimiter co)\<rparr> =
      co'\<lparr>RowCount := k\<rparr>"
    by (simp add: co'_def)
  have "CSV_records reg fmt (co\<lparr>RowCount := k\<rparr>) s =
      (fst (CSV_checked reg fmt (co'\<lparr>RowCount := k\<rparr>) s), co'\<lparr>RowCount := k\<rparr>,
       snd (CSV_checked reg fmt (co'\<lparr>RowCount := k\<rparr>) s))"
    using CSV_records_valid [of "co\<lparr>RowCount := k\<rparr>" reg fmt s] valid k
    by (simp add: swap)
  with before have "CSV_checked reg fmt (co'\<lparr>RowCount := k\<rparr>) s = (Inr wk, sk)"
    by (auto simp: prod_eq_iff)
  moreover have "k < RowCount co'" using k by (simp add: co'_def)
  moreover have "fields_loop reg fmt k 0 (slice_elems (Fields co'))
           (replicate (length (slice_elems (Fields co'))) []) sk = (Inl err, s')"
    using row by (simp add: co'_def)
  ultimately have "CSV_checked reg fmt co' s = (Inl err, s')"
    using k(1) by (intro CSV_checked_fails_at [where k = k and wk = wk and sk = sk])
  moreover have "CSV_records reg fmt co s =
      (fst (CSV_checked reg fmt co' s), co', snd (CSV_checked reg fmt co' s))"
    using CSV_records_valid [of co reg fmt s] valid k by (simp add: co'_def)
  ultimately show ?thesis
    by (simp add: CSV_unfold co'_def)
qed

lemma CSV_records_one_row:
  assumes "valid_delimiter (Delimiter co)" "slice_elems (Fields co) \<noteq> []"
  shows "\<exists>w. CSV_records reg fmt (co\<lparr>RowCount := 1\<rparr>) s =
           (Inr w, co\<lparr>Delimiter := normalize_delimiter (Delimiter co), RowCount := 1\<rparr>, s)"
  using CSV_records_valid [of "co\<lparr>RowCount := 1\<rparr>" reg fmt s] assms
  by (simp add: CSV_checked_def)

section \<open>Reading back what the writer wrote\<close>

lemma readQuoted_quoted:
  assumes "rest = [] \<or> hd rest \<noteq> CHR 0x22"
  shows "readQuoted
           (concat (map (\<lambda>c. if c = CHR 0x22 then [CHR 0x22, CHR 0x22] else [c]) field)
              @ CHR 0x22 # rest) = Some (field, rest)"
proof (induction field)
  case Nil
  from assms show ?case by (cases rest) auto
next
  case (Cons c field)
  then show ?case by simp
qed

lemma readField_writeField:
  assumes "comma \<noteq> CHR 0x22" "comma \<noteq> CHR 0x0A"
    and "rest = [] \<or> hd rest = comma \<or> hd rest = CHR 0x0A"
  shows "readField comma (writeField comma field @ rest) = Some (field, rest)"
proof (cases "fieldNeedsQuotes comma field")
  case True
  have "rest = [] \<or> hd rest \<noteq> CHR 0x22"
    using assms by auto
  from readQuoted_quoted [OF this, of field] True show ?thesis
    by (simp add: writeField_def quoteField_def readField_def)
next
  case False
  then have plain: "\<forall>c \<in> set field. plain_char comma c"
    by (auto simp: fieldNeedsQuotes_def plain_char_def)
  have stop: "rest = [] \<or> \<not> plain_char comma (hd rest)"
    using assms(3) by (auto simp: plain_char_def)
  have take: "takeWhile (plain_char comma) (field @ rest) = field"
    using plain stop by (cases rest) (simp_all add: takeWhile_append2 takeWhile_tail)
  have drop: "dropWhile (plain_char comma) (field @ rest) = rest"
    using plain stop by (cases rest) (simp_all add: dropWhile_append2)
  have first: "field @ rest = [] \<or> hd (field @ rest) \<noteq> CHR 0x22"
  proof (cases field)
    case Nil
    with assms show ?thesis by auto
  next
    case (Cons c cs)
    with plain show ?thesis by (simp add: plain_char_def)
  qed
  show ?thesis
  proof (cases "field @ rest")
    case Nil
    then show ?thesis using False by (simp add: writeField_def readField_def)
  next
    case (Cons c cs)
    with first have "c \<noteq> CHR 0x22" by simp
    then have "readField comma (field @ rest) =
        Some (takeWhile (plain_char comma) (field @ rest), dropWhile (plain_char comma) (field @ rest))"
      using Cons by (simp add: readField_def)
    then show ?thesis using False take drop by (simp add: writeField_def)
  qed
qed

lemma readRecord_writeFields:
  assumes "comma \<noteq> CHR 0x22" "comma \<noteq> CHR 0x0A" "rec \<noteq> []"
  shows "readRecord comma (writeFields comma rec @ CHR 0x0A # rest) = Some (rec, rest)"
  using assms
proof (induction comma rec rule: writeFields.induct)
  case (1 comma)
  then show ?case by simp
next
  case (2 comma field)
  have "readField comma (writeField comma field @ CHR 0x0A # rest) = Some (field, CHR 0x0A # rest)"
    using "2.prems" by (intro readField_writeField) simp_all
  then show ?case
    by (simp add: readRecord.simps [of comma "writeField comma field @ CHR 0x0A # rest"])
next
  case (3 comma field next_field fields)
  define tail where "tail = writeFields comma (next_field # fields) @ CHR 0x0A # rest"
  have "readField comma (writeField comma field @ comma # tail) = Some (field, comma # tail)"
    using "3.prems" by (intro readField_writeField) simp_all
  moreover have "readRecord comma tail = Some (next_field # fields, rest)"
    unfolding tail_def using "3.prems" by (intro "3.IH") simp_all
  ultimately have "readRecord comma (writeField comma field @ comma # tail) =
      Some (field # next_field # fields, rest)"
    using "3.prems"(2)
    by (simp add: readRecord.simps [of comma "writeField comma field @ comma # tail"])
  then show ?case by (simp add: tail_def)
qed

lemma readRecord_writeRecord:
  assumes "comma \<noteq> CHR 0x22" "comma \<noteq> CHR 0x0A" "rec \<noteq> []"
  shows "readRecord comma (writeRecord comma rec @ rest) = Some (rec, rest)"
  using readRecord_writeFields [OF assms, of rest] by (simp add: writeRecord_def)

lemma readAll_writeRecords:
  assumes "comma \<noteq> CHR 0x22" "comma \<noteq> CHR 0x0A" "\<forall>rec \<in> set recs. rec \<noteq> []"
  shows "readAll comma (concat (map (writeRecord comma) recs)) = Some recs"
  using assms(3)
proof (induction recs)
  case Nil
  then show ?case by simp
next
  case (Cons rec recs)
  define tail where "tail = concat (map (writeRecord comma) recs)"
  have "readRecord comma (writeRecord comma rec @ tail) = Some (rec, tail)"
    using assms(1,2) Cons.prems by (intro readRecord_writeRecord) simp_all
  moreover have "readAll comma tail = Some recs"
    unfolding tail_def using Cons by simp
  moreover have "writeRecord comma rec @ tail \<noteq> []"
    by (simp add: writeRecord_def)
  ultimately have "readAll comma (writeRecord comma rec @ tail) = Some (rec # recs)"
    by (simp add: readAll.simps [of comma "writeRecord comma rec @ tail"])
  then show ?case by (simp add: tail_def)
qed

section \<open>The claims\<close>

subsection \<open>The number of rows\<close>

text \<open>
  C1. Whenever CSV returns without an error (the delimiter is valid, the field list is not
  empty, the row count \<open>N\<close> is at least 1 and every cell resolves), the records it has written
  are the header row followed by exactly \<open>N - 1\<close> body rows, and the bytes returned are their
  encoding. CSV always returns, with bytes or with an error; by \<open>CSV_succeeds\<close> it returns
  without an error whenever the request is valid and none of its generators fails.
\<close>

theorem CSV_row_count:
  assumes "snd (fst (CSV reg fmt co s)) = None"
  shows "\<exists>w body. fst (CSV_records reg fmt co s) = Inr w \<and>
           fst (fst (CSV reg fmt co s)) = Some (Bytes w) \<and>
           written w = map Name (slice_elems (Fields co)) # body \<and>
           int (length body) = RowCount co - 1"
proof -
  from assms obtain w where w: "fst (CSV_records reg fmt co s) = Inr w"
    by (cases "fst (CSV_records reg fmt co s)") (simp_all add: CSV_unfold)
  from CSV_records_grid [OF w] CSV_records_Inr [OF w] obtain body where
    "written w = map Name (slice_elems (Fields co)) # body" "int (length body) = RowCount co - 1"
    by auto
  moreover have "fst (fst (CSV reg fmt co s)) = Some (Bytes w)"
    using w by (simp add: CSV_unfold)
  ultimately show ?thesis using w by blast
qed

theorem CSV_row_count_witness:
  "snd (fst (CSV demo id demo_co 0)) = None \<and>
   (\<exists>w body. fst (CSV_records demo id demo_co 0) = Inr w \<and>
           fst (fst (CSV demo id demo_co 0)) = Some (Bytes w) \<and>
           written w = map Name (slice_elems (Fields demo_co)) # body \<and>
           int (length body) = RowCount demo_co - 1)"
proof -
  have h: "snd (fst (CSV demo id demo_co 0)) = None"
    by code_simp
  show ?thesis using h CSV_row_count [OF h] by simp
qed

subsection \<open>Autoincrement\<close>

text \<open>
  C2. When CSV gets through the rows, the column of every \<^verbatim>\<open>autoincrement\<close> field reads the
  decimal strings of 1, 2, 3, up to \<^verbatim>\<open>RowCount - 1\<close>, one per body row: the cell is the row index
  \<open>i\<close>, so two such fields agree in every row. The registry is not consulted for the name:
  whatever it holds under \<^verbatim>\<open>autoincrement\<close>, CSV gives the same result.
\<close>

theorem autoincrement_cells:
  assumes "fst (CSV_records reg fmt co s) = Inr w"
  shows "(\<forall>j < length (slice_elems (Fields co)).
            Function (slice_elems (Fields co) ! j) = ''autoincrement'' \<longrightarrow>
              map (\<lambda>vr. vr ! j) (tl (written w)) = map Sprintf_d [1 .. RowCount co - 1]) \<and>
         (\<forall>k < length (tl (written w)). \<forall>j < length (slice_elems (Fields co)).
            Function (slice_elems (Fields co) ! j) = ''autoincrement'' \<longrightarrow>
              tl (written w) ! k ! j = Sprintf_d (1 + int k)) \<and>
         CSV (reg(''autoincrement'' := g)) fmt co s = CSV reg fmt co s"
proof -
  define fs where "fs = slice_elems (Fields co)"
  from CSV_records_grid [OF assms] obtain body where
    body: "written w = map Name fs # body" "length body = nat (RowCount co - 1)"
      "\<forall>k < length body. row_of reg fmt fs (1 + int k) (body ! k)"
    unfolding fs_def by blast
  have cell: "body ! k ! j = Sprintf_d (1 + int k)"
    if "k < length body" "j < length fs" "Function (fs ! j) = ''autoincrement''" for k j
    using body(3) that by (auto simp: row_of_def cell_of_def)
  have column: "map (\<lambda>vr. vr ! j) body = map Sprintf_d [1 .. RowCount co - 1]"
    if j: "j < length fs" "Function (fs ! j) = ''autoincrement''" for j
  proof (rule nth_equalityI)
    show "length (map (\<lambda>vr. vr ! j) body) = length (map Sprintf_d [1 .. RowCount co - 1])"
      using body(2) by simp
  next
    fix k
    assume "k < length (map (\<lambda>vr. vr ! j) body)"
    then have k: "k < length body" by simp
    then have "1 + int k \<le> RowCount co - 1" using body(2) by linarith
    then have "[1 .. RowCount co - 1] ! k = 1 + int k" by (rule nth_upto)
    then show "map (\<lambda>vr. vr ! j) body ! k = map Sprintf_d [1 .. RowCount co - 1] ! k"
      using k cell [OF k j] body(2) by simp
  qed
  show ?thesis
    using column cell body(1) unfolding fs_def [symmetric]
    by (simp add: CSV_autoincrement_upd)
qed

theorem autoincrement_cells_witness:
  "fst (CSV_records demo id demo_co 0) =
     Inr \<lparr>Comma = CHR '','',
          written = [[''id'', ''greeting''], [''1'', ''hi, there''], [''2'', ''hi, there'']]\<rparr> \<and>
   map (\<lambda>vr. vr ! 0)
     (tl (written \<lparr>Comma = CHR '','',
          written = [[''id'', ''greeting''], [''1'', ''hi, there''], [''2'', ''hi, there'']]\<rparr>)) =
     map Sprintf_d [1 .. RowCount demo_co - 1] \<and>
   map Sprintf_d [1 .. RowCount demo_co - 1] = [''1'', ''2'']"
proof -
  have digits: "map Sprintf_d [1 .. RowCount demo_co - 1] = [''1'', ''2'']"
    by code_simp
  have h: "fst (CSV_records demo id demo_co 0) =
     Inr \<lparr>Comma = CHR '','',
          written = [[''id'', ''greeting''], [''1'', ''hi, there''], [''2'', ''hi, there'']]\<rparr>"
    by code_simp
  have j: "0 < length (slice_elems (Fields demo_co))"
    "Function (slice_elems (Fields demo_co) ! 0) = ''autoincrement''"
    by (simp_all add: demo_co_def demo_fields_def slice_elems_def)
  show ?thesis
    using h j digits autoincrement_cells [OF h] by blast
qed

subsection \<open>Delimiter normalization\<close>

text \<open>
  C3. An empty delimiter gives what a comma gives. A delimiter that \<^verbatim>\<open>strings.ToLower\<close> maps to
  \<^verbatim>\<open>tab\<close>, which are the eight case variants of the word, gives what the tab character
  gives. Any other delimiter that is neither a comma nor the tab character makes CSV return
  the InvalidDelimiter error and no output. When CSV gets as far as writing, the separator of
  its writer is the comma for an empty delimiter and for a comma, the tab character otherwise.
\<close>

theorem delimiter_normalization:
  "(ToLower d = ''tab'' \<longleftrightarrow>
      d \<in> {''tab'', ''taB'', ''tAb'', ''tAB'', ''Tab'', ''TaB'', ''TAb'', ''TAB''}) \<and>
   CSV reg fmt (co\<lparr>Delimiter := []\<rparr>) s = CSV reg fmt (co\<lparr>Delimiter := '',''\<rparr>) s \<and>
   (ToLower d = ''tab'' \<longrightarrow>
      CSV reg fmt (co\<lparr>Delimiter := d\<rparr>) s = CSV reg fmt (co\<lparr>Delimiter := [CHR 0x09]\<rparr>) s) \<and>
   (d \<noteq> [] \<and> ToLower d \<noteq> ''tab'' \<and> d \<noteq> '','' \<and> d \<noteq> [CHR 0x09] \<longrightarrow>
      CSV reg fmt (co\<lparr>Delimiter := d\<rparr>) s =
        ((None, Some InvalidDelimiter), co\<lparr>Delimiter := d\<rparr>, s)) \<and>
   (\<forall>w. fst (CSV_records reg fmt (co\<lparr>Delimiter := d\<rparr>) s) = Inr w \<longrightarrow>
      Comma w = (if d = [] \<or> d = '','' then CHR '','' else CHR 0x09))"
proof (intro conjI impI allI)
  show "ToLower d = ''tab'' \<longleftrightarrow>
      d \<in> {''tab'', ''taB'', ''tAb'', ''tAB'', ''Tab'', ''TaB'', ''TAb'', ''TAB''}"
    by (rule ToLower_tab_iff)
next
  have "normalize_delimiter [] = '',''"
    by (simp add: normalize_delimiter_def ToLower_def)
  then show "CSV reg fmt (co\<lparr>Delimiter := []\<rparr>) s = CSV reg fmt (co\<lparr>Delimiter := '',''\<rparr>) s"
    using CSV_normalized [of reg fmt "co\<lparr>Delimiter := []\<rparr>" s] by simp
next
  assume "ToLower d = ''tab''"
  then have "normalize_delimiter d = [CHR 0x09]"
    by (auto simp: normalize_delimiter_def ToLower_def)
  then show "CSV reg fmt (co\<lparr>Delimiter := d\<rparr>) s = CSV reg fmt (co\<lparr>Delimiter := [CHR 0x09]\<rparr>) s"
    using CSV_normalized [of reg fmt "co\<lparr>Delimiter := d\<rparr>" s] by simp
next
  assume "d \<noteq> [] \<and> ToLower d \<noteq> ''tab'' \<and> d \<noteq> '','' \<and> d \<noteq> [CHR 0x09]"
  then have "\<not> valid_delimiter (Delimiter (co\<lparr>Delimiter := d\<rparr>))"
    by (simp add: valid_delimiter_def)
  then show "CSV reg fmt (co\<lparr>Delimiter := d\<rparr>) s =
      ((None, Some InvalidDelimiter), co\<lparr>Delimiter := d\<rparr>, s)"
    by (rule CSV_invalid_delimiter)
next
  fix w
  assume w: "fst (CSV_records reg fmt (co\<lparr>Delimiter := d\<rparr>) s) = Inr w"
  from CSV_records_Inr [OF w] have valid: "valid_delimiter d" by simp
  from CSV_records_grid [OF w] have "Comma w = hd (normalize_delimiter d)" by auto
  moreover have "normalize_delimiter d = (if d = [] \<or> d = '','' then '','' else [CHR 0x09])"
    using valid by (auto simp: valid_delimiter_def normalize_delimiter_def ToLower_def)
  ultimately show "Comma w = (if d = [] \<or> d = '','' then CHR '','' else CHR 0x09)"
    by simp
qed

theorem delimiter_normalization_witness:
  "ToLower ''TAB'' = ''tab'' \<and>
   CSV demo id (demo_co\<lparr>Delimiter := ''TAB''\<rparr>) 0 = CSV demo id (demo_co\<lparr>Delimiter := [CHR 0x09]\<rparr>) 0 \<and>
   (''|'' \<noteq> [] \<and> ToLower ''|'' \<noteq> ''tab'' \<and> ''|'' \<noteq> '','' \<and> ''|'' \<noteq> [CHR 0x09]) \<and>
   CSV demo id (demo_co\<lparr>Delimiter := ''|''\<rparr>) 0 =
     ((None, Some InvalidDelimiter), demo_co\<lparr>Delimiter := ''|''\<rparr>, 0) \<and>
   (\<exists>w. fst (CSV_records demo id (demo_co\<lparr>Delimiter := ''Tab''\<rparr>) 0) = Inr w \<and>
      Comma w = CHR 0x09)"
proof -
  have tab: "ToLower ''TAB'' = ''tab''"
    by code_simp
  have bar: "''|'' \<noteq> [] \<and> ToLower ''|'' \<noteq> ''tab'' \<and> ''|'' \<noteq> '','' \<and> ''|'' \<noteq> [CHR 0x09]"
    by (simp add: ToLower_def)
  have "\<not> isl (fst (CSV_records demo id (demo_co\<lparr>Delimiter := ''Tab''\<rparr>) 0))"
    by code_simp
  then have run: "\<exists>w. fst (CSV_records demo id (demo_co\<lparr>Delimiter := ''Tab''\<rparr>) 0) = Inr w"
    by (cases "fst (CSV_records demo id (demo_co\<lparr>Delimiter := ''Tab''\<rparr>) 0)") simp_all
  show ?thesis
    using tab bar run
      delimiter_normalization [where d = "''TAB''" and reg = demo and fmt = id and co = demo_co
        and s = "0 :: nat"]
      delimiter_normalization [where d = "''|''" and reg = demo and fmt = id and co = demo_co
        and s = "0 :: nat"]
      delimiter_normalization [where d = "''Tab''" and reg = demo and fmt = id and co = demo_co
        and s = "0 :: nat"]
    by auto
qed

subsection \<open>The order of the checks\<close>

text \<open>
  C4. The checks run in the order delimiter, field list, row count, and the first that fails
  decides: with an invalid delimiter CSV returns the InvalidDelimiter error whatever the
  fields and the row count are; with a valid delimiter and a field list that is absent or
  empty it returns the MissingFields error whatever the row count is.
\<close>

theorem validation_order:
  "(\<not> valid_delimiter d \<longrightarrow>
      fst (CSV reg fmt \<lparr>Delimiter = d, RowCount = n, Fields = fs\<rparr> s) =
        (None, Some InvalidDelimiter)) \<and>
   (valid_delimiter d \<and> (fs = None \<or> fs = Some []) \<longrightarrow>
      fst (CSV reg fmt \<lparr>Delimiter = d, RowCount = n, Fields = fs\<rparr> s) =
        (None, Some MissingFields))"
proof (intro conjI impI)
  assume "\<not> valid_delimiter d"
  then show "fst (CSV reg fmt \<lparr>Delimiter = d, RowCount = n, Fields = fs\<rparr> s) =
      (None, Some InvalidDelimiter)"
    by (simp add: CSV_invalid_delimiter)
next
  assume "valid_delimiter d \<and> (fs = None \<or> fs = Some [])"
  then have "valid_delimiter d" "slice_elems fs = []"
    by (auto simp: slice_elems_def)
  then show "fst (CSV reg fmt \<lparr>Delimiter = d, RowCount = n, Fields = fs\<rparr> s) =
      (None, Some MissingFields)"
    by (simp add: CSV_missing_fields)
qed

theorem validation_order_witness:
  "\<not> valid_delimiter ''|'' \<and>
   fst (CSV demo id \<lparr>Delimiter = ''|'', RowCount = 0, Fields = None\<rparr> 0) =
     (None, Some InvalidDelimiter) \<and>
   valid_delimiter ''tab'' \<and>
   fst (CSV demo id \<lparr>Delimiter = ''tab'', RowCount = 0, Fields = Some []\<rparr> 0) =
     (None, Some MissingFields)"
proof -
  have bad: "\<not> valid_delimiter ''|''"
    by (simp add: valid_delimiter_def ToLower_def)
  have good: "valid_delimiter ''tab''"
    by code_simp
  show ?thesis
    using bad good
      validation_order [where d = "''|''" and reg = demo and fmt = id and n = 0 and fs = None
        and s = "0 :: nat"]
      validation_order [where d = "''tab''" and reg = demo and fmt = id and n = 0
        and fs = "Some []" and s = "0 :: nat"]
    by simp
qed

subsection \<open>A row count that is not positive\<close>

text \<open>
  C5, as the code has it. With a valid delimiter and a field list that is not empty, a row
  count of zero or less makes CSV return the MissingRowCount error. The field list is checked
  before the row count: with an absent or empty field list the error is MissingFields.
\<close>

theorem missing_row_count:
  assumes "valid_delimiter (Delimiter co)" "slice_elems (Fields co) \<noteq> []" "RowCount co \<le> 0"
  shows "fst (CSV reg fmt co s) = (None, Some MissingRowCount)"
  using assms by (simp add: CSV_missing_row_count)

theorem missing_row_count_witness:
  "valid_delimiter (Delimiter (demo_co\<lparr>RowCount := - 2\<rparr>)) \<and>
   slice_elems (Fields (demo_co\<lparr>RowCount := - 2\<rparr>)) \<noteq> [] \<and>
   RowCount (demo_co\<lparr>RowCount := - 2\<rparr>) \<le> 0 \<and>
   fst (CSV demo id (demo_co\<lparr>RowCount := - 2\<rparr>) 0) = (None, Some MissingRowCount)"
proof -
  have h: "valid_delimiter (Delimiter (demo_co\<lparr>RowCount := - 2\<rparr>))"
    "slice_elems (Fields (demo_co\<lparr>RowCount := - 2\<rparr>)) \<noteq> []"
    "RowCount (demo_co\<lparr>RowCount := - 2\<rparr>) \<le> 0"
    by (simp_all add: demo_co_def demo_fields_def valid_delimiter_def slice_elems_def)
  show ?thesis
    using h missing_row_count [OF h, of demo id "0 :: nat"] by simp
qed

theorem missing_row_count_counterexample:
  "RowCount \<lparr>Delimiter = '','', RowCount = 0, Fields = None :: string Field list option\<rparr> \<le> 0 \<and>
   fst (CSV demo id \<lparr>Delimiter = '','', RowCount = 0, Fields = None\<rparr> 0) =
     (None, Some MissingFields) \<and>
   fst (CSV demo id \<lparr>Delimiter = '','', RowCount = 0, Fields = None\<rparr> 0) \<noteq>
     (None, Some MissingRowCount)"
  by (simp add: CSV_missing_fields valid_delimiter_def slice_elems_def error_kinds_distinct)

subsection \<open>An unknown function\<close>

text \<open>
  C6, as the code has it. The registry is consulted while the body rows are built, so a row
  count of 1, which builds no body row, never meets the unknown name. With a valid delimiter
  and a row count of at least 2, take the first field, in the order of the descriptors, that
  does not resolve in the first body row: if its function is not \<^verbatim>\<open>autoincrement\<close> and is not in
  the registry, CSV returns the UnknownFunction error naming that function, and no bytes. The
  cells produced before it are dropped.
\<close>

theorem unknown_function:
  assumes "valid_delimiter (Delimiter co)"
    and "Fields co = Some (pre @ field # post)"
    and "2 \<le> RowCount co"
    and "Function field \<noteq> ''autoincrement''"
    and "reg (Function field) = None"
    and "fields_loop reg fmt 1 0 pre (replicate (length (pre @ field # post)) []) s = (Inr vr, s1)"
  shows "fst (CSV reg fmt co s) = (None, Some (UnknownFunction (Function field))) \<and>
         snd (snd (CSV reg fmt co s)) = s1"
proof -
  have fs: "slice_elems (Fields co) = pre @ field # post"
    using assms(2) by (simp add: slice_elems_def)
  obtain w where before: "CSV_records reg fmt (co\<lparr>RowCount := 1\<rparr>) s =
      (Inr w, co\<lparr>Delimiter := normalize_delimiter (Delimiter co), RowCount := 1\<rparr>, s)"
    using CSV_records_one_row [of co reg fmt s] assms(1) fs by auto
  have "fields_loop reg fmt 1 0 (pre @ field # post) (replicate (length (pre @ field # post)) []) s =
      (Inl (UnknownFunction (Function field)), s1)"
    using assms(4,5,6) by (simp add: fields_loop_append UnknownFunction_def)
  then have "CSV reg fmt co s =
      ((None, Some (UnknownFunction (Function field))),
       co\<lparr>Delimiter := normalize_delimiter (Delimiter co)\<rparr>, s1)"
    using assms(1,3) fs before by (intro CSV_fails_at [where k = 1]) simp_all
  then show ?thesis by simp
qed

theorem unknown_function_witness:
  "valid_delimiter (Delimiter \<lparr>Delimiter = '','', RowCount = 2,
      Fields = Some ([id_field] @ unknown_field # [])\<rparr>) \<and>
   Function unknown_field \<noteq> ''autoincrement'' \<and>
   demo (Function unknown_field) = None \<and>
   fields_loop demo id 1 0 [id_field] (replicate (length ([id_field] @ unknown_field # [])) []) 0 =
     (Inr [''1'', ''''], 0) \<and>
   fst (CSV demo id \<lparr>Delimiter = '','', RowCount = 2,
      Fields = Some ([id_field] @ unknown_field # [])\<rparr> 0) =
     (None, Some (UnknownFunction (Function unknown_field)))"
proof -
  have h: "valid_delimiter (Delimiter \<lparr>Delimiter = '','', RowCount = 2,
      Fields = Some ([id_field] @ unknown_field # [])\<rparr>)"
    "Fields \<lparr>Delimiter = '','', RowCount = 2, Fields = Some ([id_field] @ unknown_field # [])\<rparr> =
       Some ([id_field] @ unknown_field # [])"
    "2 \<le> RowCount \<lparr>Delimiter = '','', RowCount = 2,
      Fields = Some ([id_field] @ unknown_field # [])\<rparr>"
    "Function unknown_field \<noteq> ''autoincrement''"
    "demo (Function unknown_field) = None"
    by (simp_all add: valid_delimiter_def unknown_field_def demo_def)
  have row: "fields_loop demo id 1 0 [id_field]
      (replicate (length ([id_field] @ unknown_field # [])) []) 0 = (Inr [''1'', ''''], 0)"
    by code_simp
  show ?thesis
    using h(1,4,5) row unknown_function [OF h row] by simp
qed

theorem unknown_function_counterexample:
  "demo (Function unknown_field) = None \<and> Function unknown_field \<noteq> ''autoincrement'' \<and>
   CSV demo id \<lparr>Delimiter = '','', RowCount = 1, Fields = Some [unknown_field]\<rparr> 0 =
     ((Some [CHR ''x'', CHR 0x0A], None),
      \<lparr>Delimiter = '','', RowCount = 1, Fields = Some [unknown_field]\<rparr>, 0)"
  by code_simp

subsection \<open>A failing generator\<close>

text \<open>
  C7. Let the body rows before row \<open>k\<close> be built, which is to say that the same request with
  the row count \<open>k\<close> succeeds, and let the fields before some field resolve in row \<open>k\<close>. If the
  call of that field's generator returns an error, CSV returns that very error and no bytes,
  the rows before \<open>k\<close> included. If the call returns a value, the cell of the field is
  \<^verbatim>\<open>fmt.Sprintf("%v", value)\<close>, whatever the value is.
\<close>

theorem generator_error:
  assumes "valid_delimiter (Delimiter co)"
    and "Fields co = Some (pre @ field # post)"
    and "1 \<le> k" and "k < RowCount co"
    and "CSV_records reg fmt (co\<lparr>RowCount := k\<rparr>) s = (Inr wk, cok, sk)"
    and "fields_loop reg fmt k 0 pre (replicate (length (pre @ field # post)) []) sk = (Inr vr, s1)"
    and "Function field \<noteq> ''autoincrement''"
    and "reg (Function field) = Some call"
  shows "(\<forall>err s2. call (Params field) s1 = (Inl err, s2) \<longrightarrow>
            fst (CSV reg fmt co s) = (None, Some err) \<and> snd (snd (CSV reg fmt co s)) = s2) \<and>
         (\<forall>val s2. call (Params field) s1 = (Inr val, s2) \<longrightarrow>
            fields_loop reg fmt k 0 (pre @ [field]) (replicate (length (pre @ field # post)) []) sk =
              (Inr (vr[length pre := fmt val]), s2))"
proof (rule conjI; intro allI impI)
  fix err s2
  assume call: "call (Params field) s1 = (Inl err, s2)"
  have fs: "slice_elems (Fields co) = pre @ field # post"
    using assms(2) by (simp add: slice_elems_def)
  have "fields_loop reg fmt k 0 (pre @ field # post) (replicate (length (pre @ field # post)) []) sk =
      (Inl err, s2)"
    using assms(6,7,8) call by (simp add: fields_loop_append)
  then have "CSV reg fmt co s =
      ((None, Some err), co\<lparr>Delimiter := normalize_delimiter (Delimiter co)\<rparr>, s2)"
    using assms(1,3,4,5) fs by (intro CSV_fails_at [where k = k and wk = wk and sk = sk]) simp_all
  then show "fst (CSV reg fmt co s) = (None, Some err) \<and> snd (snd (CSV reg fmt co s)) = s2"
    by simp
next
  fix val s2
  assume "call (Params field) s1 = (Inr val, s2)"
  then show "fields_loop reg fmt k 0 (pre @ [field]) (replicate (length (pre @ field # post)) []) sk =
      (Inr (vr[length pre := fmt val]), s2)"
    using assms(6,7,8) by (simp add: fields_loop_append)
qed

theorem generator_error_witness:
  "CSV_records demo id
     (\<lparr>Delimiter = '','', RowCount = 3, Fields = Some ([id_field] @ flaky_field # [])\<rparr>
        \<lparr>RowCount := 2\<rparr>) 0 =
     (Inr \<lparr>Comma = CHR '','', written = [[''id'', ''greeting''], [''1'', ''hi, there'']]\<rparr>,
      \<lparr>Delimiter = '','', RowCount = 2, Fields = Some ([id_field] @ flaky_field # [])\<rparr>, 1) \<and>
   fields_loop demo id 2 0 [id_field] (replicate (length ([id_field] @ flaky_field # [])) []) 1 =
     (Inr [''2'', ''''], 1) \<and>
   fst (CSV demo id
     \<lparr>Delimiter = '','', RowCount = 3, Fields = Some ([id_field] @ flaky_field # [])\<rparr> 0) =
     (None, Some (Foreign ())) \<and>
   fields_loop demo id 1 0 ([id_field] @ [flaky_field])
     (replicate (length ([id_field] @ flaky_field # [])) []) 0 =
     (Inr ([''1'', ''''][length [id_field] := id ''hi, there'']), 1)"
proof -
  define co :: "string CSVOptions" where
    "co = \<lparr>Delimiter = '','', RowCount = 3, Fields = Some ([id_field] @ flaky_field # [])\<rparr>"
  define call :: "(string, string, unit, nat) Call" where
    "call = (\<lambda>p s. if 1 \<le> s then (Inl (Foreign ()), s) else (Inr p, Suc s))"
  have h: "valid_delimiter (Delimiter co)"
    "Fields co = Some ([id_field] @ flaky_field # [])"
    by (simp_all add: co_def valid_delimiter_def)
  have f: "Function flaky_field \<noteq> ''autoincrement''" "demo (Function flaky_field) = Some call"
    by (simp_all add: flaky_field_def demo_def call_def)
  have k2: "1 \<le> (2 :: int)" "2 < RowCount co" and k1: "1 \<le> (1 :: int)" "1 < RowCount co"
    by (simp_all add: co_def)
  have before2: "CSV_records demo id (co\<lparr>RowCount := 2\<rparr>) 0 =
     (Inr \<lparr>Comma = CHR '','', written = [[''id'', ''greeting''], [''1'', ''hi, there'']]\<rparr>,
      \<lparr>Delimiter = '','', RowCount = 2, Fields = Some ([id_field] @ flaky_field # [])\<rparr>, 1)"
    unfolding co_def by code_simp
  have row2: "fields_loop demo id 2 0 [id_field]
      (replicate (length ([id_field] @ flaky_field # [])) []) 1 = (Inr [''2'', ''''], 1)"
    by code_simp
  have before1: "CSV_records demo id (co\<lparr>RowCount := 1\<rparr>) 0 =
     (Inr \<lparr>Comma = CHR '','', written = [[''id'', ''greeting'']]\<rparr>,
      \<lparr>Delimiter = '','', RowCount = 1, Fields = Some ([id_field] @ flaky_field # [])\<rparr>, 0)"
    unfolding co_def by code_simp
  have row1: "fields_loop demo id 1 0 [id_field]
      (replicate (length ([id_field] @ flaky_field # [])) []) 0 = (Inr [''1'', ''''], 0)"
    by code_simp
  have fails: "call (Params flaky_field) 1 = (Inl (Foreign ()), 1)"
    and succeeds: "call (Params flaky_field) 0 = (Inr ''hi, there'', 1)"
    by (simp_all add: call_def flaky_field_def)
  from generator_error [OF h k2 before2 row2 f] fails
  have "fst (CSV demo id co 0) = (None, Some (Foreign ()))"
    by blast
  moreover from generator_error [OF h k1 before1 row1 f] succeeds
  have "fields_loop demo id 1 0 ([id_field] @ [flaky_field])
     (replicate (length ([id_field] @ flaky_field # [])) []) 0 =
     (Inr ([''1'', ''''][length [id_field] := id ''hi, there'']), 1)"
    by blast
  ultimately show ?thesis
    using before2 row2 unfolding co_def by simp
qed

subsection \<open>What CSV changes\<close>

text \<open>
  C8, as the code has it. CSV writes to the caller's options record through the pointer: it
  overwrites \<^verbatim>\<open>Delimiter\<close> with the comma when it was empty and with the tab character when it
  was a case variant of the word \<^verbatim>\<open>tab\<close>. Nothing else of the record changes, whether CSV
  returns bytes or an error: \<^verbatim>\<open>RowCount\<close> and \<^verbatim>\<open>Fields\<close>, with the name, the function and the
  parameter bag of every field, are as the caller passed them.
\<close>

theorem CSV_frame:
  "fst (snd (CSV reg fmt co s)) =
     co\<lparr>Delimiter :=
          if Delimiter co = [] then '',''
          else if ToLower (Delimiter co) = ''tab'' then [CHR 0x09]
          else Delimiter co\<rparr>"
proof -
  have "fst (snd (CSV reg fmt co s)) = co\<lparr>Delimiter := normalize_delimiter (Delimiter co)\<rparr>"
    by (simp add: CSV_unfold CSV_records_unfold Let_def split: sum.splits)
  moreover have "normalize_delimiter (Delimiter co) =
     (if Delimiter co = [] then '',''
      else if ToLower (Delimiter co) = ''tab'' then [CHR 0x09]
      else Delimiter co)"
    by (simp add: normalize_delimiter_def ToLower_def)
  ultimately show ?thesis by simp
qed

theorem CSV_frame_witness:
  "fst (snd (CSV demo id (demo_co\<lparr>Delimiter := ''TAB''\<rparr>) 0)) =
     demo_co\<lparr>Delimiter := [CHR 0x09]\<rparr> \<and>
   fst (snd (CSV demo id (demo_co\<lparr>Delimiter := ''|''\<rparr>) 0)) = demo_co\<lparr>Delimiter := ''|''\<rparr>"
proof -
  have "ToLower ''TAB'' = ''tab''" "ToLower ''|'' \<noteq> ''tab''"
    by (code_simp, simp add: ToLower_def)
  then show ?thesis
    using CSV_frame [of demo id "demo_co\<lparr>Delimiter := ''TAB''\<rparr>" "0 :: nat"]
      CSV_frame [of demo id "demo_co\<lparr>Delimiter := ''|''\<rparr>" "0 :: nat"]
    by simp
qed

theorem CSV_frame_counterexample:
  "fst (snd (CSV demo id \<lparr>Delimiter = [], RowCount = 0, Fields = None\<rparr> 0)) \<noteq>
     \<lparr>Delimiter = [], RowCount = 0, Fields = None\<rparr>"
  by (simp add: CSV_missing_fields valid_delimiter_def slice_elems_def normalize_delimiter_def
      ToLower_def)

subsection \<open>The shape of the grid\<close>

text \<open>
  C9. When CSV gets through the rows, the first record written is the header, the names of the
  fields in the order of the descriptors, with as many cells as there are fields; every body
  row has as many cells as there are fields, and its cell \<open>j\<close> is what the descriptor \<open>j\<close>
  resolves to in that row.
\<close>

theorem grid_shape:
  assumes "fst (CSV_records reg fmt co s) = Inr w"
  shows "hd (written w) = map Name (slice_elems (Fields co)) \<and>
         length (hd (written w)) = length (slice_elems (Fields co)) \<and>
         (\<forall>k < length (tl (written w)).
            length (tl (written w) ! k) = length (slice_elems (Fields co)) \<and>
            (\<forall>j < length (slice_elems (Fields co)).
               cell_of reg fmt (1 + int k) (slice_elems (Fields co) ! j) (tl (written w) ! k ! j)))"
proof -
  from CSV_records_grid [OF assms] obtain body where
    body: "written w = map Name (slice_elems (Fields co)) # body"
      "\<forall>k < length body. row_of reg fmt (slice_elems (Fields co)) (1 + int k) (body ! k)"
    by blast
  then show ?thesis by (simp add: row_of_def)
qed

theorem grid_shape_witness:
  "fst (CSV_records demo id demo_co 0) =
     Inr \<lparr>Comma = CHR '','',
          written = [[''id'', ''greeting''], [''1'', ''hi, there''], [''2'', ''hi, there'']]\<rparr> \<and>
   1 < length (tl (written \<lparr>Comma = CHR '','',
          written = [[''id'', ''greeting''], [''1'', ''hi, there''], [''2'', ''hi, there'']]\<rparr>)) \<and>
   1 < length (slice_elems (Fields demo_co)) \<and>
   cell_of demo id (1 + int 1) (slice_elems (Fields demo_co) ! 1) ''hi, there''"
proof -
  have h: "fst (CSV_records demo id demo_co 0) =
     Inr \<lparr>Comma = CHR '','',
          written = [[''id'', ''greeting''], [''1'', ''hi, there''], [''2'', ''hi, there'']]\<rparr>"
    by code_simp
  have k: "1 < length (tl (written \<lparr>Comma = CHR '','',
          written = [[''id'', ''greeting''], [''1'', ''hi, there''], [''2'', ''hi, there'']]\<rparr>))"
    and j: "1 < length (slice_elems (Fields demo_co))"
    by (simp_all add: demo_co_def demo_fields_def slice_elems_def)
  from grid_shape [OF h] k j
  have "cell_of demo id (1 + int 1) (slice_elems (Fields demo_co) ! 1)
          (tl (written \<lparr>Comma = CHR '','',
             written = [[''id'', ''greeting''], [''1'', ''hi, there''], [''2'', ''hi, there'']]\<rparr>) ! 1 ! 1)"
    by blast
  then show ?thesis using h k j by simp
qed

subsection \<open>The encoding\<close>

text \<open>
  C10. When CSV gets through the rows: every cell that contains the separator, a line feed or
  a quote character is written between quote characters with its own quote characters
  doubled; reading the encoding of any row with the reader, under the same separator, gives
  the cells of the row back as they were; and reading the bytes CSV returns gives back every
  record written.
\<close>

theorem encoding_round_trip:
  assumes "fst (CSV_records reg fmt co s) = Inr w"
  shows "(\<forall>rec \<in> set (written w). \<forall>cell \<in> set rec.
            Comma w \<in> set cell \<or> CHR 0x0A \<in> set cell \<or> CHR 0x22 \<in> set cell \<longrightarrow>
              writeField (Comma w) cell =
                CHR 0x22 # concat (map (\<lambda>c. if c = CHR 0x22 then [CHR 0x22, CHR 0x22] else [c]) cell)
                  @ [CHR 0x22]) \<and>
         (\<forall>rec \<in> set (written w).
            readRecord (Comma w) (writeRecord (Comma w) rec) = Some (rec, [])) \<and>
         fst (fst (CSV reg fmt co s)) = Some (Bytes w) \<and>
         readAll (Comma w) (Bytes w) = Some (written w)"
proof -
  from CSV_records_separator [OF assms]
  have comma: "Comma w \<noteq> CHR 0x22" "Comma w \<noteq> CHR 0x0A" by auto
  from CSV_records_grid [OF assms] CSV_records_Inr [OF assms] obtain body where
    body: "written w = map Name (slice_elems (Fields co)) # body"
      "\<forall>k < length body. row_of reg fmt (slice_elems (Fields co)) (1 + int k) (body ! k)"
      "slice_elems (Fields co) \<noteq> []"
    by blast
  have nonempty: "\<forall>rec \<in> set (written w). rec \<noteq> []"
  proof
    fix rec
    assume "rec \<in> set (written w)"
    then have "rec = map Name (slice_elems (Fields co)) \<or> rec \<in> set body"
      using body(1) by simp
    then show "rec \<noteq> []"
    proof
      assume "rec = map Name (slice_elems (Fields co))"
      then show ?thesis using body(3) by simp
    next
      assume "rec \<in> set body"
      then obtain k where "k < length body" "rec = body ! k"
        by (auto simp: in_set_conv_nth)
      with body(2) have "length rec = length (slice_elems (Fields co))"
        by (simp add: row_of_def)
      then show ?thesis using body(3) by auto
    qed
  qed
  have "writeField (Comma w) cell =
      CHR 0x22 # concat (map (\<lambda>c. if c = CHR 0x22 then [CHR 0x22, CHR 0x22] else [c]) cell)
        @ [CHR 0x22]"
    if "Comma w \<in> set cell \<or> CHR 0x0A \<in> set cell \<or> CHR 0x22 \<in> set cell" for cell
    using that by (simp add: writeField_def fieldNeedsQuotes_def quoteField_def)
  moreover have "readRecord (Comma w) (writeRecord (Comma w) rec) = Some (rec, [])"
    if "rec \<in> set (written w)" for rec
    using readRecord_writeRecord [OF comma, of rec "[]"] nonempty that by simp
  moreover have "fst (fst (CSV reg fmt co s)) = Some (Bytes w)"
    using assms by (simp add: CSV_unfold)
  moreover have "readAll (Comma w) (Bytes w) = Some (written w)"
    unfolding Bytes_def using comma nonempty by (rule readAll_writeRecords)
  ultimately show ?thesis by blast
qed

theorem encoding_round_trip_witness:
  "fst (CSV_records demo id demo_co 0) =
     Inr \<lparr>Comma = CHR '','',
          written = [[''id'', ''greeting''], [''1'', ''hi, there''], [''2'', ''hi, there'']]\<rparr> \<and>
   writeField (CHR '','') ''hi, there'' =
     CHR 0x22 # concat (map (\<lambda>c. if c = CHR 0x22 then [CHR 0x22, CHR 0x22] else [c]) ''hi, there'')
       @ [CHR 0x22] \<and>
   readRecord (CHR '','') (writeRecord (CHR '','') [''1'', ''hi, there'']) =
     Some ([''1'', ''hi, there''], []) \<and>
   readAll (CHR '','')
     (Bytes \<lparr>Comma = CHR '','',
          written = [[''id'', ''greeting''], [''1'', ''hi, there''], [''2'', ''hi, there'']]\<rparr>) =
     Some [[''id'', ''greeting''], [''1'', ''hi, there''], [''2'', ''hi, there'']]"
proof -
  have h: "fst (CSV_records demo id demo_co 0) =
     Inr \<lparr>Comma = CHR '','',
          written = [[''id'', ''greeting''], [''1'', ''hi, there''], [''2'', ''hi, there'']]\<rparr>"
    by code_simp
  show ?thesis
    using h encoding_round_trip [OF h] by simp
qed

end
